theory Spec2Isabelle
  imports
    Complex_Main
    "HOL-Library.Word"
    "HOL-Library.Log_Nat"
    "HOL-Library.Multiset"
    "HOL-Library.List_Lexorder"
begin

section \<open>Python values\<close>

text \<open>
  The program is one Python file, \<^verbatim>\<open>app.py\<close>. Its score list comes out of
  \<^verbatim>\<open>json.loads\<close>, so an element is any JSON value as Python decodes it.
  A Python string is a sequence of Unicode code points; a float is an IEEE 754 binary64
  value, kept here as its 64-bit pattern; an int is unbounded; a dict is the list of its
  items in insertion order, keys distinct.
\<close>

type_synonym pystr = "nat list"

definition ustr :: "string \<Rightarrow> pystr" where
  "ustr s = map of_char s"

datatype pyval =
    PNone
  | PBool bool
  | PInt int
  | PFloat "64 word"
  | PStr pystr
  | PList "pyval list"
  | PDict "(pystr \<times> pyval) list"

datatype error =
    ValueError
  | OverflowError
  | InvalidOperation
  | ZeroDivisionError
  | TypeError
  | AttributeError
  | KeyError
  | UnidentifiedImageError

section \<open>Binary64 arithmetic\<close>

text \<open>
  The value of a double: a rational, an infinity or NaN. The two zeros are one value
  here: they compare equal, and the sign of a zero never reaches the integer that
  \<^verbatim>\<open>calculate_final_score\<close> returns.
\<close>

datatype pyfloat = Fin rat | PInf | NInf | NaN

definition pow2 :: "int \<Rightarrow> rat" where
  "pow2 p = (if 0 \<le> p then of_int (2 ^ nat p) else 1 / of_int (2 ^ nat (- p)))"

text \<open>The binary exponent of a non-zero rational: \<open>2^e \<le> |q| < 2^(e+1)\<close>.\<close>

definition ilog2 :: "rat \<Rightarrow> int" where
  "ilog2 q =
     (let d = (if 1 \<le> \<bar>q\<bar> then bitlen \<lfloor>\<bar>q\<bar>\<rfloor> - 1 else 1 - bitlen \<lfloor>1 / \<bar>q\<bar>\<rfloor>)
      in if pow2 d \<le> \<bar>q\<bar> then d else d - 1)"

definition round_half_even :: "rat \<Rightarrow> int" where
  "round_half_even x =
     (let f = \<lfloor>x\<rfloor>; d = x - of_int f
      in if d < 1 / 2 then f
         else if 1 / 2 < d then f + 1
         else if even f then f else f + 1)"

text \<open>
  Rounding a rational to the nearest double, ties to even: 53 significant bits, the
  least unit never below \<open>2^-1074\<close> (subnormals), and an infinity once the rounded
  magnitude reaches \<open>2^1024\<close>.
\<close>

definition round64 :: "rat \<Rightarrow> pyfloat" where
  "round64 q =
     (if q = 0 then Fin 0
      else
        let p = max (ilog2 q - 52) (- 1074);
            r = of_int (round_half_even (q / pow2 p)) * pow2 p
        in if pow2 1024 \<le> r then PInf
           else if r \<le> - pow2 1024 then NInf
           else Fin r)"

text \<open>
  Decoding a bit pattern: bit 63 is the sign, bits 52 to 62 the biased exponent,
  bits 0 to 51 the fraction.
\<close>

definition float_value :: "64 word \<Rightarrow> pyfloat" where
  "float_value w =
     (let n = uint w;
          neg = (n div 2 ^ 63 = 1);
          e = (n div 2 ^ 52) mod 2 ^ 11;
          f = n mod 2 ^ 52
      in if e = 2047 then (if f \<noteq> 0 then NaN else if neg then NInf else PInf)
         else
           let m = (if e = 0 then of_int f * pow2 (- 1074)
                    else of_int (2 ^ 52 + f) * pow2 (e - 1075))
           in Fin (if neg then - m else m))"

text \<open>Python's \<^verbatim>\<open><\<close> on floats: every comparison with NaN is false.\<close>

fun flt :: "pyfloat \<Rightarrow> pyfloat \<Rightarrow> bool" where
  "flt (Fin a) (Fin b) = (a < b)"
| "flt NInf (Fin b) = True"
| "flt NInf PInf = True"
| "flt (Fin a) PInf = True"
| "flt _ _ = False"

text \<open>Float addition.\<close>

fun fl_add :: "pyfloat \<Rightarrow> pyfloat \<Rightarrow> pyfloat" where
  "fl_add (Fin a) (Fin b) = round64 (a + b)"
| "fl_add NaN _ = NaN"
| "fl_add _ NaN = NaN"
| "fl_add PInf NInf = NaN"
| "fl_add NInf PInf = NaN"
| "fl_add PInf _ = PInf"
| "fl_add _ PInf = PInf"
| "fl_add NInf _ = NInf"
| "fl_add _ NInf = NInf"

text \<open>
  Float true division, \<^verbatim>\<open>x / y\<close>; Python raises on a zero divisor instead of
  returning an infinity.
\<close>

fun fl_truediv :: "pyfloat \<Rightarrow> pyfloat \<Rightarrow> error + pyfloat" where
  "fl_truediv (Fin a) (Fin b) = (if b = 0 then Inl ZeroDivisionError else Inr (round64 (a / b)))"
| "fl_truediv NaN (Fin b) = (if b = 0 then Inl ZeroDivisionError else Inr NaN)"
| "fl_truediv PInf (Fin b) =
     (if b = 0 then Inl ZeroDivisionError else Inr (if 0 < b then PInf else NInf))"
| "fl_truediv NInf (Fin b) =
     (if b = 0 then Inl ZeroDivisionError else Inr (if 0 < b then NInf else PInf))"
| "fl_truediv (Fin a) PInf = Inr (Fin 0)"
| "fl_truediv (Fin a) NInf = Inr (Fin 0)"
| "fl_truediv _ _ = Inr NaN"

text \<open>
  \<^verbatim>\<open>float(i)\<close> for an int: the nearest double, OverflowError when that is
  out of range.
\<close>

definition float_of_int :: "int \<Rightarrow> error + pyfloat" where
  "float_of_int i =
     (case round64 (of_int i) of Fin r \<Rightarrow> Inr (Fin r) | _ \<Rightarrow> Inl OverflowError)"

section \<open>Strings of digits\<close>

text \<open>
  \<^verbatim>\<open>str.isdigit\<close> and \<^verbatim>\<open>float\<close> read the Unicode character database
  (version 14.0 here). A character with the property Decimal has a digit value
  and belongs to a run of ten consecutive code points that starts at the zero of its script;
  \<open>decimal_zeros\<close> lists these zeros. The characters that are digits without being
  decimal (superscripts, circled digits and the like) are the ranges of
  \<open>other_digit_ranges\<close>.
\<close>

definition decimal_zeros :: "nat list" where
  "decimal_zeros =
     [48, 1632, 1776, 1984, 2406, 2534, 2662, 2790, 2918, 3046, 3174, 3302, 3430, 3558,
      3664, 3792, 3872, 4160, 4240, 6112, 6160, 6470, 6608, 6784, 6800, 6992, 7088, 7232,
      7248, 42528, 43216, 43264, 43472, 43504, 43600, 44016, 65296, 66720, 68912, 69734,
      69872, 69942, 70096, 70384, 70736, 70864, 71248, 71360, 71472, 71904, 72016, 72784,
      73040, 73120, 92768, 92864, 93008, 120782, 120792, 120802, 120812, 120822, 123200,
      123632, 125264, 130032]"

definition other_digit_ranges :: "(nat \<times> nat) list" where
  "other_digit_ranges =
     [(178, 179), (185, 185), (4969, 4977), (6618, 6618), (8304, 8304), (8308, 8313),
      (8320, 8329), (9312, 9320), (9332, 9340), (9352, 9360), (9450, 9450), (9461, 9469),
      (9471, 9471), (10102, 10110), (10112, 10120), (10122, 10130), (68160, 68163),
      (69216, 69224), (69714, 69722), (127232, 127242)]"

definition decimal_digit :: "nat \<Rightarrow> nat option" where
  "decimal_digit c =
     map_option (\<lambda>z. c - z) (find (\<lambda>z. z \<le> c \<and> c < z + 10) decimal_zeros)"

definition is_digit_char :: "nat \<Rightarrow> bool" where
  "is_digit_char c \<longleftrightarrow>
     decimal_digit c \<noteq> None \<or> list_ex (\<lambda>(lo, hi). lo \<le> c \<and> c \<le> hi) other_digit_ranges"

text \<open>\<^verbatim>\<open>s.isdigit()\<close>: at least one character, and every character a digit.\<close>

definition isdigit :: "pystr \<Rightarrow> bool" where
  "isdigit s \<longleftrightarrow> s \<noteq> [] \<and> list_all is_digit_char s"

text \<open>\<^verbatim>\<open>str(i)\<close> for an int.\<close>

function digits_of :: "int \<Rightarrow> pystr" where
  "digits_of n =
     (if n < 10 then [nat (48 + n)] else digits_of (n div 10) @ [nat (48 + n mod 10)])"
  by pat_completeness auto
termination
  by (relation "measure nat") auto

definition str_of_int :: "int \<Rightarrow> pystr" where
  "str_of_int i = (if i < 0 then 45 # digits_of (- i) else digits_of i)"

text \<open>
  \<^verbatim>\<open>str(s).isdigit()\<close>. The text of None, of a bool, of an int and of a string
  is written out. The text of a float always holds a character that is no digit (a point,
  an \<open>e\<close>, or the letters of \<open>inf\<close> and \<open>nan\<close>), and the text of a list or of a
  dict starts with a bracket.
\<close>

fun str_isdigit :: "pyval \<Rightarrow> bool" where
  "str_isdigit PNone = isdigit (ustr ''None'')"
| "str_isdigit (PBool b) = isdigit (ustr (if b then ''True'' else ''False''))"
| "str_isdigit (PInt i) = isdigit (str_of_int i)"
| "str_isdigit (PFloat w) = False"
| "str_isdigit (PStr t) = isdigit t"
| "str_isdigit (PList xs) = False"
| "str_isdigit (PDict kvs) = False"

text \<open>\<^verbatim>\<open>isinstance(s, (int, float))\<close>; bool is a subclass of int.\<close>

fun isinstance_int_float :: "pyval \<Rightarrow> bool" where
  "isinstance_int_float (PInt i) = True"
| "isinstance_int_float (PBool b) = True"
| "isinstance_int_float (PFloat w) = True"
| "isinstance_int_float _ = False"

text \<open>The condition of the comprehension on line 65.\<close>

definition keeps :: "pyval \<Rightarrow> bool" where
  "keeps s \<longleftrightarrow> str_isdigit s \<or> isinstance_int_float s"

text \<open>
  \<^verbatim>\<open>float(t)\<close> for a string that passed \<^verbatim>\<open>isdigit\<close>: the characters must all
  be decimal, or ValueError is raised; the number they spell is rounded to the nearest
  double, an infinity when it is too large (no error is raised for a string).
\<close>

fun digits_value :: "int \<Rightarrow> pystr \<Rightarrow> int option" where
  "digits_value acc [] = Some acc"
| "digits_value acc (c # cs) =
     (case decimal_digit c of
        None \<Rightarrow> None
      | Some d \<Rightarrow> digits_value (10 * acc + int d) cs)"

definition float_of_digits :: "pystr \<Rightarrow> error + pyfloat" where
  "float_of_digits t =
     (case digits_value 0 t of
        None \<Rightarrow> Inl ValueError
      | Some n \<Rightarrow> Inr (round64 (of_int n)))"

text \<open>\<^verbatim>\<open>float(s)\<close> on the values the condition lets through.\<close>

fun py_float :: "pyval \<Rightarrow> error + pyfloat" where
  "py_float (PInt i) = float_of_int i"
| "py_float (PBool b) = Inr (Fin (if b then 1 else 0))"
| "py_float (PFloat w) = Inr (float_value w)"
| "py_float (PStr t) = float_of_digits t"
| "py_float _ = Inl TypeError"

text \<open>
  The comprehension \<^verbatim>\<open>[float(s) for s in scores if ...]\<close>: elements are taken in
  order, and the first conversion that raises ends the call.
\<close>

fun valid_scores_of :: "pyval list \<Rightarrow> error + pyfloat list" where
  "valid_scores_of [] = Inr []"
| "valid_scores_of (s # ss) =
     (if keeps s then
        (case py_float s of
           Inl e \<Rightarrow> Inl e
         | Inr v \<Rightarrow> (case valid_scores_of ss of Inl e \<Rightarrow> Inl e | Inr vs \<Rightarrow> Inr (v # vs)))
      else valid_scores_of ss)"

section \<open>The score of one sheet\<close>

text \<open>
  \<^verbatim>\<open>valid_scores.sort(reverse=True)\<close> is a stable sort that compares with \<^verbatim>\<open><\<close>.
  On a list without NaN every such sort returns the same list; the one written here inserts
  the elements from the left, each before the first element that is less than it. With a
  NaN in the list the comparisons are no order, and what CPython returns depends on the
  comparisons its algorithm happens to make; the function below agrees with it on lists
  of at most two elements, and no statement of this theory relies on more.
\<close>

fun insert_desc :: "pyfloat \<Rightarrow> pyfloat list \<Rightarrow> pyfloat list" where
  "insert_desc x [] = [x]"
| "insert_desc x (y # ys) = (if flt y x then x # y # ys else y # insert_desc x ys)"

definition sort_reverse :: "pyfloat list \<Rightarrow> pyfloat list" where
  "sort_reverse xs = foldl (\<lambda>acc x. insert_desc x acc) [] xs"

text \<open>The slice \<^verbatim>\<open>xs[:n]\<close>; a negative \<open>n\<close> counts from the end.\<close>

definition slice_to :: "'a list \<Rightarrow> int \<Rightarrow> 'a list" where
  "slice_to xs n = (if 0 \<le> n then take (nat n) xs else take (length xs - nat (- n)) xs)"

text \<open>Lines 70 and 71: the values that are averaged.\<close>

definition top_scores_of :: "pyfloat list \<Rightarrow> int \<Rightarrow> pyfloat list" where
  "top_scores_of valid_scores top_n = slice_to (sort_reverse valid_scores) top_n"

text \<open>
  \<^verbatim>\<open>sum(top_scores)\<close> starts from the int 0 and adds from left to right, each
  addition rounded to a double. (From version 3.12 on, CPython carries a compensation
  term through the sum of floats; both give the same result whenever the additions are
  exact, and on any list of at most two elements.)
\<close>

definition py_sum :: "pyfloat list \<Rightarrow> pyfloat" where
  "py_sum xs = foldl fl_add (Fin 0) xs"

text \<open>
  Line 74, \<^verbatim>\<open>sum(top_scores) / len(top_scores)\<close>: the length is converted to a
  float and divides the sum; an empty list gives \<open>0 / 0\<close>, a ZeroDivisionError.
\<close>

definition avg_of :: "pyfloat list \<Rightarrow> error + pyfloat" where
  "avg_of top_scores =
     (case float_of_int (int (length top_scores)) of
        Inl e \<Rightarrow> Inl e
      | Inr d \<Rightarrow> fl_truediv (py_sum top_scores) d)"

text \<open>
  ROUND_HALF_UP of the decimal module: to the nearest integer, a tie away from zero.
\<close>

definition round_half_up :: "rat \<Rightarrow> int" where
  "round_half_up q = (if 0 \<le> q then \<lfloor>q + 1 / 2\<rfloor> else - \<lfloor>- q + 1 / 2\<rfloor>)"

text \<open>
  Lines 77 to 82. \<^verbatim>\<open>decimal.Decimal(avg)\<close> holds the value of the double exactly.
  \<^verbatim>\<open>round(d, 0)\<close> quantizes it to an integer under the context, whose rounding was
  just set and whose precision is the default 28 digits: a result of more than 28 digits
  and an infinity raise InvalidOperation. NaN passes through the rounding, and
  \<^verbatim>\<open>int\<close> then raises ValueError.
\<close>

definition final_avg_of :: "pyfloat \<Rightarrow> error + int" where
  "final_avg_of avg =
     (case avg of
        NaN \<Rightarrow> Inl ValueError
      | PInf \<Rightarrow> Inl InvalidOperation
      | NInf \<Rightarrow> Inl InvalidOperation
      | Fin q \<Rightarrow>
          (let r = round_half_up q
           in if \<bar>r\<bar> < 10 ^ 28 then Inr r else Inl InvalidOperation))"

text \<open>Truth value of an object, for \<^verbatim>\<open>if not scores\<close>.\<close>

fun truthy :: "pyval \<Rightarrow> bool" where
  "truthy PNone = False"
| "truthy (PBool b) = b"
| "truthy (PInt i) = (i \<noteq> 0)"
| "truthy (PFloat w) = (float_value w \<noteq> Fin 0)"
| "truthy (PStr t) = (t \<noteq> [])"
| "truthy (PList xs) = (xs \<noteq> [])"
| "truthy (PDict kvs) = (kvs \<noteq> [])"

text \<open>
  What \<^verbatim>\<open>for s in scores\<close> runs through: the elements of a list, the characters
  of a string, the keys of a dict; any other value is not iterable.
\<close>

fun py_iter :: "pyval \<Rightarrow> error + pyval list" where
  "py_iter (PList xs) = Inr xs"
| "py_iter (PStr t) = Inr (map (\<lambda>c. PStr [c]) t)"
| "py_iter (PDict kvs) = Inr (map (\<lambda>kv. PStr (fst kv)) kvs)"
| "py_iter _ = Inl TypeError"

text \<open>\<^verbatim>\<open>calculate_final_score(scores, top_n)\<close>, lines 61 to 82.\<close>

definition calculate_final_score :: "pyval \<Rightarrow> int \<Rightarrow> error + int" where
  "calculate_final_score scores top_n =
     (if \<not> truthy scores then Inr 0
      else
        case py_iter scores of
          Inl e \<Rightarrow> Inl e
        | Inr items \<Rightarrow>
            (case valid_scores_of items of
               Inl e \<Rightarrow> Inl e
             | Inr valid_scores \<Rightarrow>
                 if valid_scores = [] then Inr 0
                 else
                   (case avg_of (top_scores_of valid_scores top_n) of
                      Inl e \<Rightarrow> Inl e
                    | Inr avg \<Rightarrow> final_avg_of avg)))"

text \<open>
  An order on float values, used to say what "sorted" means: it is Python's on the values
  that are not NaN, and puts NaN above all of them.
\<close>

instantiation pyfloat :: linorder
begin

definition less_eq_pyfloat :: "pyfloat \<Rightarrow> pyfloat \<Rightarrow> bool" where
  "less_eq_pyfloat a b \<longleftrightarrow> a = b \<or> b = NaN \<or> flt a b"

definition less_pyfloat :: "pyfloat \<Rightarrow> pyfloat \<Rightarrow> bool" where
  "less_pyfloat a b \<longleftrightarrow> a \<noteq> b \<and> (b = NaN \<or> flt a b)"

instance
proof
  fix x y z :: pyfloat
  show "(x < y) = (x \<le> y \<and> \<not> y \<le> x)"
    by (cases x; cases y) (auto simp: less_eq_pyfloat_def less_pyfloat_def)
  show "x \<le> x"
    by (simp add: less_eq_pyfloat_def)
  show "x \<le> y \<Longrightarrow> y \<le> z \<Longrightarrow> x \<le> z"
    by (cases x; cases y; cases z) (auto simp: less_eq_pyfloat_def)
  show "x \<le> y \<Longrightarrow> y \<le> x \<Longrightarrow> x = y"
    by (cases x; cases y) (auto simp: less_eq_pyfloat_def)
  show "x \<le> y \<or> y \<le> x"
    by (cases x; cases y) (auto simp: less_eq_pyfloat_def)
qed

end


text \<open>
  The filter as the specification words it: a value that is already a number (Python
  counts a bool among the ints), or a string made of digits only.
\<close>

fun spec_retained :: "pyval \<Rightarrow> bool" where
  "spec_retained (PInt i) = True"
| "spec_retained (PBool b) = True"
| "spec_retained (PFloat w) = True"
| "spec_retained (PStr t) = (t \<noteq> [] \<and> (\<forall>c \<in> set t. is_digit_char c))"
| "spec_retained _ = False"

text \<open>A float value that is finite and lies between two integers.\<close>

definition in_range :: "int \<Rightarrow> int \<Rightarrow> pyfloat \<Rightarrow> bool" where
  "in_range L H v = (case v of Fin x \<Rightarrow> of_int L \<le> x \<and> x \<le> of_int H | _ \<Rightarrow> False)"

section \<open>The result set\<close>

text \<open>
  One row of the table built on lines 111 to 116. The last column is
  \<^verbatim>\<open>str(raw_scores)\<close> in the source; the value itself is kept here.
\<close>

record 'seat result_record =
  filename :: pystr
  seat_number :: 'seat
  final_score :: int
  raw_scores :: pyval



text \<open>
  The conversion of one string as numpy does it for a column of Python objects:
  \<^verbatim>\<open>int(s)\<close>, then the value must fit 64 bits. \<^verbatim>\<open>int\<close> first turns every
  character from 127 on into a space if it is white space, into its digit if it is
  decimal, and into a question mark otherwise; then it skips ASCII white space at both
  ends, reads a sign, and reads digits, where single underscores may stand between digits.
\<close>

definition space_ranges :: "(nat \<times> nat) list" where
  "space_ranges =
     [(9, 13), (28, 32), (133, 133), (160, 160), (5760, 5760), (8192, 8202), (8232, 8233),
      (8239, 8239), (8287, 8287), (12288, 12288)]"

definition is_space_char :: "nat \<Rightarrow> bool" where
  "is_space_char c \<longleftrightarrow> list_ex (\<lambda>(lo, hi). lo \<le> c \<and> c \<le> hi) space_ranges"









section \<open>The batch\<close>

text \<open>
  What is outside the program is data here. An uploaded file has a name, the outcome of
  \<^verbatim>\<open>Image.open\<close> (it opens or it raises), and the outcome of the call to the
  service with \<^verbatim>\<open>response.text\<close>: an exception with its message, or a text.
  \<^verbatim>\<open>json.loads\<close> is the parameter \<open>loads\<close>: it raises with a message or returns
  a value.
\<close>

datatype reply = ApiError pystr | ReplyText pystr

record upload =
  name :: pystr
  image_opens :: bool
  reply :: reply

text \<open>\<^verbatim>\<open>s.replace(old, new)\<close>, from left to right without overlap.\<close>

function py_replace :: "pystr \<Rightarrow> pystr \<Rightarrow> pystr \<Rightarrow> pystr" where
  "py_replace old new [] = (if old = [] then new else [])"
| "py_replace old new (c # cs) =
     (if old = [] then new @ c # py_replace old new cs
      else if take (length old) (c # cs) = old
        then new @ py_replace old new (drop (length old) (c # cs))
      else c # py_replace old new cs)"
  by pat_completeness auto
termination
  by (relation "measure (\<lambda>(old, new, s). length s)") auto

text \<open>\<^verbatim>\<open>s.strip()\<close>: white space is removed at both ends.\<close>

definition py_strip :: "pystr \<Rightarrow> pystr" where
  "py_strip s = rev (dropWhile is_space_char (rev (dropWhile is_space_char s)))"

text \<open>Line 56: the code fences are taken out of the reply.\<close>

definition json_str_of :: "pystr \<Rightarrow> pystr" where
  "json_str_of text =
     py_strip (py_replace (ustr ''```'') [] (py_replace (ustr ''```json'') [] text))"

text \<open>Lines 53 to 59: any exception becomes a dict with the key \<open>error\<close>.\<close>

definition process_image_with_gemini :: "(pystr \<Rightarrow> pystr + pyval) \<Rightarrow> reply \<Rightarrow> pyval" where
  "process_image_with_gemini loads r =
     (case r of
        ApiError msg \<Rightarrow> PDict [(ustr ''error'', PStr msg)]
      | ReplyText text \<Rightarrow>
          (case loads (json_str_of text) of
             Inl msg \<Rightarrow> PDict [(ustr ''error'', PStr msg)]
           | Inr v \<Rightarrow> v))"

text \<open>
  \<^verbatim>\<open>"error" in data\<close>: a key of a dict, an element of a list, a part of a string;
  any other value raises TypeError.
\<close>

fun contains_str :: "pystr \<Rightarrow> pystr \<Rightarrow> bool" where
  "contains_str e [] = (e = [])"
| "contains_str e (c # cs) = (take (length e) (c # cs) = e \<or> contains_str e cs)"

fun error_in :: "pyval \<Rightarrow> error + bool" where
  "error_in (PDict kvs) = Inr (ustr ''error'' \<in> set (map fst kvs))"
| "error_in (PList xs) = Inr (PStr (ustr ''error'') \<in> set xs)"
| "error_in (PStr t) = Inr (contains_str (ustr ''error'') t)"
| "error_in _ = Inl TypeError"

text \<open>\<^verbatim>\<open>data['error']\<close> and \<^verbatim>\<open>data.get(key, default)\<close>.\<close>

fun getitem_error :: "pyval \<Rightarrow> error + pyval" where
  "getitem_error (PDict kvs) =
     (case map_of kvs (ustr ''error'') of Some v \<Rightarrow> Inr v | None \<Rightarrow> Inl KeyError)"
| "getitem_error _ = Inl TypeError"

definition dict_get :: "(pystr \<times> pyval) list \<Rightarrow> pystr \<Rightarrow> pyval \<Rightarrow> pyval" where
  "dict_get kvs k d = (case map_of kvs k of Some v \<Rightarrow> v | None \<Rightarrow> d)"

text \<open>
  The state of the loop on lines 92 to 118: the rows collected so far, and what
  \<^verbatim>\<open>st.error\<close> has shown (file name and the value of \<open>data['error']\<close>). The outcome
  \<open>Inl\<close> is an exception that nothing catches: the batch stops there.
\<close>

record run_state =
  results :: "pyval result_record list"
  shown_errors :: "(pystr \<times> pyval) list"

definition process_upload ::
  "(pystr \<Rightarrow> pystr + pyval) \<Rightarrow> int \<Rightarrow> run_state \<Rightarrow> upload \<Rightarrow> error + run_state" where
  "process_upload loads threshold_count st uploaded_file =
     (if \<not> image_opens uploaded_file then Inl UnidentifiedImageError
      else
        let data = process_image_with_gemini loads (reply uploaded_file)
        in case error_in data of
             Inl e \<Rightarrow> Inl e
           | Inr True \<Rightarrow>
               (case getitem_error data of
                  Inl e \<Rightarrow> Inl e
                | Inr msg \<Rightarrow>
                    Inr (st\<lparr>shown_errors := shown_errors st @ [(name uploaded_file, msg)]\<rparr>))
           | Inr False \<Rightarrow>
               (case data of
                  PDict kvs \<Rightarrow>
                    (let seat_num = dict_get kvs (ustr ''seat_number'') (PStr [26410, 30693]);
                         raw = dict_get kvs (ustr ''valid_scores'') (PList [])
                     in case calculate_final_score raw threshold_count of
                          Inl e \<Rightarrow> Inl e
                        | Inr score \<Rightarrow>
                            Inr (st\<lparr>results := results st @
                                   [\<lparr>filename = name uploaded_file, seat_number = seat_num,
                                     final_score = score, raw_scores = raw\<rparr>]\<rparr>))
                | _ \<Rightarrow> Inl AttributeError))"

fun main_loop ::
  "(pystr \<Rightarrow> pystr + pyval) \<Rightarrow> int \<Rightarrow> run_state \<Rightarrow> upload list \<Rightarrow> error + run_state" where
  "main_loop loads threshold_count st [] = Inr st"
| "main_loop loads threshold_count st (uploaded_file # rest) =
     (case process_upload loads threshold_count st uploaded_file of
        Inl e \<Rightarrow> Inl e
      | Inr st' \<Rightarrow> main_loop loads threshold_count st' rest)"

text \<open>The message of a failed extraction, if the extraction of this reply fails.\<close>

definition extraction_failure :: "(pystr \<Rightarrow> pystr + pyval) \<Rightarrow> reply \<Rightarrow> pystr option" where
  "extraction_failure loads r =
     (case r of
        ApiError msg \<Rightarrow> Some msg
      | ReplyText text \<Rightarrow> (case loads (json_str_of text) of Inl msg \<Rightarrow> Some msg | Inr v \<Rightarrow> None))"

section \<open>Facts about rounding to binary64\<close>

lemma pow2_eq_powi: "pow2 p = 2 powi p"
  by (simp add: pow2_def power_int_def inverse_eq_divide power_one_over)

lemma pow2_pos [simp]: "0 < pow2 p"
  by (simp add: pow2_eq_powi)


lemma pow2_diff: "pow2 (a - b) = pow2 a / pow2 b"
  by (simp add: pow2_eq_powi power_int_diff)

lemma pow2_mono: "a \<le> b \<Longrightarrow> pow2 a \<le> pow2 b"
  by (simp add: pow2_eq_powi power_int_increasing)

lemma pow2_strict_mono: "a < b \<Longrightarrow> pow2 a < pow2 b"
  by (simp add: pow2_eq_powi power_int_strict_increasing)

lemma pow2_le_iff: "pow2 a \<le> pow2 b \<longleftrightarrow> a \<le> b"
  using pow2_mono [of a b] pow2_strict_mono [of b a] by (auto simp: not_le [symmetric])

lemma pow2_less_iff: "pow2 a < pow2 b \<longleftrightarrow> a < b"
  using pow2_strict_mono [of a b] pow2_mono [of b a] by (auto simp: not_less [symmetric])

lemma pow2_nonneg_exp: "0 \<le> p \<Longrightarrow> pow2 p = of_int (2 ^ nat p)"
  by (simp add: pow2_def)

lemma pow2_numeral: "pow2 (numeral k) = 2 ^ numeral k" "pow2 0 = 1" "pow2 1 = 2"
  "pow2 (- numeral k) = 1 / 2 ^ numeral k" "pow2 (- 1) = 1 / 2"
  by (simp_all add: pow2_def)

lemma ilog2_bounds:
  assumes "q \<noteq> 0"
  shows "pow2 (ilog2 q) \<le> \<bar>q\<bar> \<and> \<bar>q\<bar> < pow2 (ilog2 q + 1)"
proof (cases "1 \<le> \<bar>q\<bar>")
  case True
  define t where "t = \<lfloor>\<bar>q\<bar>\<rfloor>"
  define k where "k = bitlen t"
  have t1: "1 \<le> t" using True by (simp add: t_def le_floor_iff)
  then have bb: "2 ^ nat (k - 1) \<le> t" "t < 2 ^ nat k"
    using bitlen_bounds [of t] by (simp_all add: k_def)
  have k1: "1 \<le> k"
    using bb(2) t1 by (cases "k \<le> 0") auto
  have lo: "pow2 (k - 1) \<le> \<bar>q\<bar>"
  proof -
    have "pow2 (k - 1) = of_int (2 ^ nat (k - 1))" using k1 by (simp add: pow2_nonneg_exp)
    also have "\<dots> \<le> of_int t" using bb(1) by (simp only: of_int_le_iff)
    also have "\<dots> \<le> \<bar>q\<bar>" by (simp add: t_def)
    finally show ?thesis .
  qed
  have hi: "\<bar>q\<bar> < pow2 k"
  proof -
    have "\<bar>q\<bar> < of_int (t + 1)" using floor_correct [of "\<bar>q\<bar>"] by (simp add: t_def)
    also have "\<dots> \<le> of_int (2 ^ nat k)" using bb(2) by (simp only: of_int_le_iff; simp)
    also have "\<dots> = pow2 k" using k1 by (simp add: pow2_nonneg_exp)
    finally show ?thesis .
  qed
  have "ilog2 q = k - 1"
    using True lo by (simp add: ilog2_def k_def t_def Let_def)
  then show ?thesis using lo hi by simp
next
  case False
  define a where "a = \<bar>q\<bar>"
  have a0: "0 < a" "a < 1" using assms False by (simp_all add: a_def)
  define t where "t = \<lfloor>1 / a\<rfloor>"
  define k where "k = bitlen t"
  have "1 \<le> 1 / a" using a0 by (simp add: field_simps)
  then have t1: "1 \<le> t" by (simp add: t_def le_floor_iff)
  then have bb: "2 ^ nat (k - 1) \<le> t" "t < 2 ^ nat k"
    using bitlen_bounds [of t] by (simp_all add: k_def)
  have k1: "1 \<le> k"
    using bb(2) t1 by (cases "k \<le> 0") auto
  have "of_int (2 ^ nat (k - 1)) \<le> (of_int t :: rat)" using bb(1) by (simp only: of_int_le_iff)
  also have "\<dots> \<le> 1 / a" by (simp add: t_def)
  finally have "pow2 (k - 1) \<le> 1 / a" using k1 by (simp add: pow2_nonneg_exp)
  then have "a * pow2 (k - 1) \<le> 1" using a0 by (simp add: field_simps)
  then have up: "a \<le> pow2 (1 - k)"
    using pow2_diff [of 0 "k - 1"] by (simp add: field_simps pow2_numeral)
  have "1 / a < of_int (t + 1)" using floor_correct [of "1 / a"] by (simp add: t_def)
  also have "\<dots> \<le> of_int (2 ^ nat k)" using bb(2) by (simp only: of_int_le_iff; simp)
  also have "\<dots> = pow2 k" using k1 by (simp add: pow2_nonneg_exp)
  finally have "1 < a * pow2 k" using a0 by (simp add: field_simps)
  then have lo: "pow2 (- k) < a"
    using pow2_diff [of 0 k] by (simp add: field_simps pow2_numeral)
  show ?thesis
  proof (cases "pow2 (1 - k) \<le> a")
    case True
    then have "ilog2 q = 1 - k"
      using False by (simp add: ilog2_def k_def t_def a_def Let_def)
    moreover have "a < pow2 (1 - k + 1)"
      using up pow2_strict_mono [of "1 - k" "1 - k + 1"] by simp
    ultimately show ?thesis using True by (simp add: a_def)
  next
    case F2: False
    then have "ilog2 q = - k"
      using False by (simp add: ilog2_def k_def t_def a_def Let_def)
    moreover have "a < pow2 (- k + 1)" using F2 by (simp add: add.commute)
    ultimately show ?thesis using lo by (simp add: a_def)
  qed
qed

lemma ilog2_unique:
  assumes "pow2 e \<le> \<bar>q\<bar>" "\<bar>q\<bar> < pow2 (e + 1)"
  shows "ilog2 q = e"
proof -
  have "q \<noteq> 0"
  proof
    assume "q = 0"
    with assms(1) have "pow2 e \<le> 0" by simp
    with pow2_pos [of e] show False by linarith
  qed
  from ilog2_bounds [OF this] have b: "pow2 (ilog2 q) \<le> \<bar>q\<bar>" "\<bar>q\<bar> < pow2 (ilog2 q + 1)" by auto
  have "pow2 (ilog2 q) < pow2 (e + 1)" using b(1) assms(2) by simp
  moreover have "pow2 e < pow2 (ilog2 q + 1)" using b(2) assms(1) by simp
  ultimately show ?thesis by (simp add: pow2_less_iff)
qed

lemma round_half_even_of_int [simp]: "round_half_even (of_int n) = n"
  by (simp add: round_half_even_def)

lemma round_half_even_le: "x \<le> of_int N \<Longrightarrow> round_half_even x \<le> N"
proof -
  assume a: "x \<le> of_int N"
  then have f: "\<lfloor>x\<rfloor> \<le> N" by (simp add: floor_le_iff)
  show ?thesis
  proof (cases "\<lfloor>x\<rfloor> = N")
    case True
    then have "x = of_int N" using a floor_correct [of x] by linarith
    then show ?thesis by simp
  next
    case False
    then have "\<lfloor>x\<rfloor> + 1 \<le> N" using f by simp
    then show ?thesis by (auto simp: round_half_even_def Let_def)
  qed
qed

lemma round_half_even_ge: "of_int N \<le> x \<Longrightarrow> N \<le> round_half_even x"
proof -
  assume "of_int N \<le> x"
  then have "N \<le> \<lfloor>x\<rfloor>" by (simp add: le_floor_iff)
  then show ?thesis by (auto simp: round_half_even_def Let_def)
qed

lemma round_half_even_near: "\<bar>x - of_int m\<bar> < 1 / 2 \<Longrightarrow> round_half_even x = m"
proof -
  assume a: "\<bar>x - of_int m\<bar> < 1 / 2"
  show ?thesis
  proof (cases "of_int m \<le> x")
    case True
    then have "\<lfloor>x\<rfloor> = m" using a by (intro floor_unique) (auto simp: abs_if split: if_splits)
    then show ?thesis using a True by (auto simp: round_half_even_def Let_def abs_if split: if_splits)
  next
    case False
    then have "\<lfloor>x\<rfloor> = m - 1" using a by (intro floor_unique) (auto simp: abs_if split: if_splits)
    then show ?thesis using a False by (auto simp: round_half_even_def Let_def abs_if split: if_splits)
  qed
qed

lemma round64_Fin_iff:
  assumes "q \<noteq> 0" "p = max (ilog2 q - 52) (- 1074)"
    "r = of_int (round_half_even (q / pow2 p)) * pow2 p" "\<bar>r\<bar> < pow2 1024"
  shows "round64 q = Fin r"
  using assms by (simp add: round64_def Let_def abs_if not_le split: if_splits)

lemma two_pow_53: "(2::rat) ^ 53 = 9007199254740992" by simp

lemma round64_between:
  assumes "of_int L \<le> q" "q \<le> of_int H" "\<bar>L\<bar> \<le> 2 ^ 53" "\<bar>H\<bar> \<le> 2 ^ 53"
  shows "\<exists>r. round64 q = Fin r \<and> of_int L \<le> r \<and> r \<le> of_int H"
proof (cases "q = 0")
  case True
  then show ?thesis using assms by (simp add: round64_def)
next
  case False
  define e where "e = ilog2 q"
  define p where "p = max (e - 52) (- 1074)"
  define m where "m = round_half_even (q / pow2 p)"
  define r where "r = of_int m * pow2 p"
  have "- (2 ^ 53) \<le> L" "H \<le> 2 ^ 53" using assms(3,4) by (simp_all add: abs_le_iff)
  then have "(of_int (- (2 ^ 53)) :: rat) \<le> of_int L" "(of_int H :: rat) \<le> of_int (2 ^ 53)"
    by (simp_all only: of_int_le_iff)
  then have LH: "(of_int L :: rat) \<ge> - (2 ^ 53)" "(of_int H :: rat) \<le> 2 ^ 53"
    by simp_all
  from LH have qb: "\<bar>q\<bar> \<le> pow2 53" using assms(1,2) by (simp add: pow2_numeral abs_le_iff)
  have eb: "pow2 e \<le> \<bar>q\<bar>" using ilog2_bounds [OF False] by (simp add: e_def)
  then have "pow2 e \<le> pow2 53" using qb by simp
  then have e53: "e \<le> 53" by (simp add: pow2_le_iff)
  have rb: "of_int L \<le> r \<and> r \<le> of_int H"
  proof (cases "p \<le> 0")
    case True
    define n where "n = nat (- p)"
    have pp: "pow2 p = 1 / of_int (2 ^ n)"
      using True pow2_diff [of 0 "- p"] by (simp add: n_def pow2_nonneg_exp pow2_numeral)
    have "of_int (L * 2 ^ n) \<le> q / pow2 p" "q / pow2 p \<le> of_int (H * 2 ^ n)"
      using assms(1,2) by (simp_all add: pp)
    then have "L * 2 ^ n \<le> m" "m \<le> H * 2 ^ n"
      unfolding m_def by (simp_all add: round_half_even_ge round_half_even_le)
    then have "(of_int (L * 2 ^ n) :: rat) \<le> of_int m" "(of_int m :: rat) \<le> of_int (H * 2 ^ n)"
      by (simp_all only: of_int_le_iff)
    then show ?thesis by (simp add: r_def pp field_simps)
  next
    case False
    then have "e = 53" "p = 1" using e53 by (auto simp: p_def)
    then have "\<bar>q\<bar> = pow2 53" using eb qb by simp
    then have "q = 2 ^ 53 \<or> q = - (2 ^ 53)" by (auto simp: pow2_numeral abs_if split: if_splits)
    then have "q / pow2 p = of_int (2 ^ 52) \<or> q / pow2 p = of_int (- (2 ^ 52))"
      using \<open>p = 1\<close> by (auto simp: pow2_numeral)
    then have "of_int m * pow2 p = q"
      unfolding m_def using \<open>p = 1\<close> \<open>q = 2 ^ 53 \<or> q = - (2 ^ 53)\<close>
      by (auto simp: pow2_numeral simp del: of_int_numeral of_int_power of_int_minus)
    then show ?thesis using assms(1,2) by (simp add: r_def)
  qed
  then have "\<bar>r\<bar> \<le> 2 ^ 53"
    using LH by (simp add: abs_le_iff)
  also have "(2::rat) ^ 53 < pow2 1024" by (simp add: pow2_numeral)
  finally have "\<bar>r\<bar> < pow2 1024" .
  then have "round64 q = Fin r"
    by (intro round64_Fin_iff [OF False, of p]) (simp_all add: p_def e_def r_def m_def)
  then show ?thesis using rb by blast
qed

section \<open>The filter\<close>

lemma round64_of_int: "\<bar>n\<bar> \<le> 2 ^ 53 \<Longrightarrow> round64 (of_int n) = Fin (of_int n)"
  using round64_between [of n "of_int n" n] by auto

lemma float_of_int_small: "\<bar>i\<bar> \<le> 2 ^ 53 \<Longrightarrow> float_of_int i = Inr (Fin (of_int i))"
  by (simp add: float_of_int_def round64_of_int)

lemma ustr_simps: "ustr [] = []" "ustr (c # cs) = of_char c # ustr cs"
  by (simp_all add: ustr_def)


lemma not_digit_letters:
  "\<not> is_digit_char 78" "\<not> is_digit_char 84" "\<not> is_digit_char 70" "\<not> is_digit_char 97"
  by (simp_all add: is_digit_char_def decimal_digit_def decimal_zeros_def other_digit_ranges_def)


lemma str_isdigit_None: "str_isdigit PNone = False"
  by (simp add: isdigit_def ustr_simps not_digit_letters)

lemma str_isdigit_Bool: "str_isdigit (PBool b) = False"
  by (simp add: isdigit_def ustr_simps not_digit_letters)

lemma keeps_spec_retained: "keeps s = spec_retained s"
proof (cases s)
  case PNone
  then show ?thesis using str_isdigit_None by (simp add: keeps_def del: str_isdigit.simps)
next
  case (PStr t)
  then show ?thesis by (simp add: keeps_def isdigit_def list_all_iff)
qed (simp_all add: keeps_def)


lemma valid_scores_of_map:
  "valid_scores_of xs = Inr vs \<Longrightarrow> map py_float (filter keeps xs) = map Inr vs"
  by (induction xs arbitrary: vs) (auto split: if_splits sum.splits)

lemma valid_scores_of_none: "\<forall>s \<in> set xs. \<not> keeps s \<Longrightarrow> valid_scores_of xs = Inr []"
  by (induction xs) simp_all

lemma valid_scores_of_Nil_iff: "valid_scores_of xs = Inr [] \<longleftrightarrow> (\<forall>s \<in> set xs. \<not> keeps s)"
  by (induction xs) (auto split: sum.splits)





section \<open>The degenerate case\<close>

text \<open>
  Claim C7. Whatever \<open>top_n\<close> is, the score of the empty list is 0, and so is the score
  of a list none of whose elements passes the filter; the function returns, it does not
  raise.
\<close>

theorem degenerate_zero:
  "calculate_final_score (PList []) top_n = Inr 0 \<and>
   ((\<forall>s \<in> set xs. \<not> keeps s) \<longrightarrow> calculate_final_score (PList xs) top_n = Inr 0)"
  by (simp add: calculate_final_score_def valid_scores_of_none)

theorem degenerate_zero_witness:
  "\<not> keeps (PStr (ustr ''abc'')) \<and> \<not> keeps PNone \<and>
   calculate_final_score (PList [PStr (ustr ''abc''), PNone]) 12 = Inr 0"
proof -
  have h: "\<not> keeps (PStr (ustr ''abc''))" "\<not> keeps PNone"
    by (simp_all add: keeps_spec_retained ustr_simps not_digit_letters)
  then have "\<forall>s \<in> set [PStr (ustr ''abc''), PNone]. \<not> keeps s"
    by simp
  with degenerate_zero [of 12 "[PStr (ustr ''abc''), PNone]"] h show ?thesis
    by blast
qed

section \<open>Exact results and the sorted list\<close>

lemma pow2_neq0 [simp]: "pow2 p \<noteq> 0"
  using pow2_pos [of p] by (metis less_irrefl)



lemma insert_desc_mset: "mset (insert_desc x ys) = add_mset x (mset ys)"
  by (induction ys) simp_all

lemma foldl_insert_desc_mset:
  "mset (foldl (\<lambda>acc x. insert_desc x acc) acc xs) = mset acc + mset xs"
  by (induction xs arbitrary: acc) (simp_all add: insert_desc_mset)

lemma sort_reverse_mset: "mset (sort_reverse xs) = mset xs"
  by (simp add: sort_reverse_def foldl_insert_desc_mset)

lemma sort_reverse_set: "set (sort_reverse xs) = set xs"
  using sort_reverse_mset [of xs] by (metis set_mset_mset)

lemma sort_reverse_length: "length (sort_reverse xs) = length xs"
  using sort_reverse_mset [of xs] by (metis size_mset)

lemma flt_iff_less: "x \<noteq> NaN \<Longrightarrow> y \<noteq> NaN \<Longrightarrow> flt y x \<longleftrightarrow> y < x"
  by (cases x; cases y) (auto simp: less_pyfloat_def)

lemma insert_desc_sorted:
  assumes "x \<noteq> NaN" "NaN \<notin> set ys" "sorted_wrt (\<lambda>a b. b \<le> a) ys"
  shows "sorted_wrt (\<lambda>a b. b \<le> a) (insert_desc x ys)"
  using assms
proof (induction ys)
  case Nil
  then show ?case by simp
next
  case (Cons y ys)
  have s: "set (insert_desc x ys) = insert x (set ys)"
    using insert_desc_mset [of x ys] by (metis set_mset_add_mset_insert set_mset_mset)
  have nn: "x \<noteq> NaN" "y \<noteq> NaN" using Cons.prems by auto
  show ?case
  proof (cases "flt y x")
    case True
    then have "y < x" using nn by (simp add: flt_iff_less)
    then show ?thesis using Cons.prems True by (auto simp: less_imp_le order_trans [of _ y x])
  next
    case False
    then have "x \<le> y" using nn by (simp add: flt_iff_less not_less)
    then show ?thesis using Cons False by (auto simp: s)
  qed
qed

lemma foldl_insert_desc_sorted:
  assumes "NaN \<notin> set xs" "NaN \<notin> set acc" "sorted_wrt (\<lambda>a b. b \<le> a) acc"
  shows "sorted_wrt (\<lambda>a b. b \<le> a) (foldl (\<lambda>acc x. insert_desc x acc) acc xs)"
  using assms
proof (induction xs arbitrary: acc)
  case Nil
  then show ?case by simp
next
  case (Cons x xs)
  have "set (insert_desc x acc) = insert x (set acc)"
    using insert_desc_mset [of x acc] by (metis set_mset_add_mset_insert set_mset_mset)
  then have "NaN \<notin> set (insert_desc x acc)" using Cons.prems by simp
  moreover have "x \<noteq> NaN" using Cons.prems by auto
  then have "sorted_wrt (\<lambda>a b. b \<le> a) (insert_desc x acc)"
    using Cons.prems by (intro insert_desc_sorted) simp_all
  ultimately show ?case using Cons by simp
qed

lemma sort_reverse_eq: "NaN \<notin> set xs \<Longrightarrow> sort_reverse xs = rev (sort xs)"
proof -
  assume a: "NaN \<notin> set xs"
  have "sorted_wrt (\<lambda>a b. b \<le> a) (sort_reverse xs)"
    using a by (simp add: sort_reverse_def foldl_insert_desc_sorted)
  then have "sorted (rev (sort_reverse xs))" by (simp add: sorted_wrt_rev)
  moreover have "mset (rev (sort_reverse xs)) = mset xs" by (simp add: sort_reverse_mset)
  ultimately have "sort xs = rev (sort_reverse xs)" by (rule properties_for_sort [rotated])
  then show ?thesis by simp
qed

lemma slice_to_pos: "1 \<le> n \<Longrightarrow> slice_to xs n = take (nat n) xs"
  by (simp add: slice_to_def)


section \<open>Rounding the mean\<close>






lemma calculate_final_score_unfold:
  assumes "valid_scores_of xs = Inr vs" "vs \<noteq> []"
  shows "calculate_final_score (PList xs) top_n =
     (case avg_of (top_scores_of vs top_n) of Inl e \<Rightarrow> Inl e | Inr avg \<Rightarrow> final_avg_of avg)"
proof -
  have "xs \<noteq> []" using assms by auto
  then show ?thesis using assms by (simp add: calculate_final_score_def)
qed


lemma round64_numeral:
  "numeral k \<le> (2 ^ 53 :: int) \<Longrightarrow> round64 (numeral k) = Fin (numeral k)"
  using round64_of_int [of "numeral k"] by simp


lemma float_of_int_numeral:
  "numeral k \<le> (2 ^ 53 :: int) \<Longrightarrow> float_of_int (numeral k) = Inr (Fin (numeral k))"
  using float_of_int_small [of "numeral k"] by simp



lemma take_min_length: "take (min n (length xs)) xs = take n xs"
  by (simp add: min_def)







section \<open>Scores within bounds\<close>

lemma in_range_iff: "in_range L H v \<longleftrightarrow> (\<exists>x. v = Fin x \<and> of_int L \<le> x \<and> x \<le> of_int H)"
  by (cases v) (simp_all add: in_range_def)

lemma py_sum_snoc: "py_sum (ys @ [y]) = fl_add (py_sum ys) y"
  by (simp add: py_sum_def)

lemma py_sum_between:
  assumes "\<forall>v \<in> set ys. in_range L H v" "\<bar>L\<bar> \<le> B" "\<bar>H\<bar> \<le> B" "int (length ys) * B \<le> 2 ^ 53"
  shows "in_range (int (length ys) * L) (int (length ys) * H) (py_sum ys)"
  using assms(1,4)
proof (induction ys rule: rev_induct)
  case Nil
  then show ?case by (simp add: py_sum_def in_range_iff)
next
  case (snoc y ys)
  have B0: "0 \<le> B" using assms(2) by linarith
  have "int (length ys) * B \<le> int (length (ys @ [y])) * B"
    using B0 by (intro mult_right_mono) simp_all
  then have "int (length ys) * B \<le> 2 ^ 53" using snoc.prems(2) by linarith
  then have "in_range (int (length ys) * L) (int (length ys) * H) (py_sum ys)"
    using snoc by simp
  then obtain s where s: "py_sum ys = Fin s" "of_int (int (length ys) * L) \<le> s"
    "s \<le> of_int (int (length ys) * H)" by (auto simp: in_range_iff)
  from snoc.prems(1) obtain x where x: "y = Fin x" "of_int L \<le> x" "x \<le> of_int H"
    by (auto simp: in_range_iff)
  define k where "k = int (length (ys @ [y]))"
  have k: "k = int (length ys) + 1" by (simp add: k_def)
  have lo: "of_int (k * L) \<le> s + x" using s(2) x(2) by (simp add: k algebra_simps)
  have hi: "s + x \<le> of_int (k * H)" using s(3) x(3) by (simp add: k algebra_simps)
  have k0: "0 \<le> k" by (simp add: k_def)
  have "\<bar>k * L\<bar> \<le> k * B" "\<bar>k * H\<bar> \<le> k * B"
    using k0 assms(2,3) by (simp_all add: abs_mult mult_left_mono)
  then have "\<bar>k * L\<bar> \<le> 2 ^ 53" "\<bar>k * H\<bar> \<le> 2 ^ 53"
    using snoc.prems(2) by (simp_all add: k_def)
  from round64_between [OF lo hi this]
  show ?case by (simp add: py_sum_snoc s(1) x(1) in_range_iff k_def)
qed

lemma round_half_up_between:
  assumes "of_int L \<le> a" "a \<le> of_int H"
  shows "L \<le> round_half_up a \<and> round_half_up a \<le> H"
proof (cases "0 \<le> a")
  case True
  have "L \<le> \<lfloor>a\<rfloor>" using assms(1) by (simp add: le_floor_iff)
  moreover have "\<lfloor>a\<rfloor> \<le> \<lfloor>a + 1 / 2\<rfloor>" by (intro floor_mono) simp
  moreover have "\<lfloor>a + 1 / 2\<rfloor> \<le> H"
  proof -
    have "a + 1 / 2 < of_int (H + 1)" using assms(2) by simp
    then have "\<lfloor>a + 1 / 2\<rfloor> < H + 1" by (simp only: floor_less_iff)
    then show ?thesis by simp
  qed
  ultimately show ?thesis using True by (simp add: round_half_up_def)
next
  case False
  have "of_int (- H) \<le> - a" using assms(2) by simp
  then have "- H \<le> \<lfloor>- a\<rfloor>" by (simp only: le_floor_iff)
  moreover have "\<lfloor>- a\<rfloor> \<le> \<lfloor>- a + 1 / 2\<rfloor>" by (intro floor_mono) simp
  moreover have "\<lfloor>- a + 1 / 2\<rfloor> \<le> - L"
  proof -
    have "- a + 1 / 2 < of_int (- L + 1)" using assms(1) by simp
    then have "\<lfloor>- a + 1 / 2\<rfloor> < - L + 1" by (simp only: floor_less_iff)
    then show ?thesis by simp
  qed
  ultimately show ?thesis using False by (simp add: round_half_up_def)
qed

lemma avg_of_between:
  assumes "\<forall>v \<in> set ys. in_range L H v" "\<bar>L\<bar> \<le> B" "\<bar>H\<bar> \<le> B" "1 \<le> B"
    "int (length ys) * B \<le> 2 ^ 53" "ys \<noteq> []"
  shows "\<exists>a. avg_of ys = Inr (Fin a) \<and> of_int L \<le> a \<and> a \<le> of_int H"
proof -
  define k where "k = int (length ys)"
  have k1: "1 \<le> k" using assms(6) by (cases ys) (simp_all add: k_def)
  have "k * 1 \<le> k * B" using k1 assms(4) by (intro mult_left_mono) simp_all
  then have "k \<le> 2 ^ 53" using assms(5) by (simp add: k_def)
  then have k53: "\<bar>k\<bar> \<le> 2 ^ 53" using k1 by simp
  then have fk: "float_of_int k = Inr (Fin (of_int k))" by (rule float_of_int_small)
  from py_sum_between [OF assms(1,2,3,5)]
  obtain s where s: "py_sum ys = Fin s" "of_int (k * L) \<le> s" "s \<le> of_int (k * H)"
    by (auto simp: in_range_iff k_def)
  have kpos: "(0::rat) < of_int k" using k1 by simp
  have lo: "of_int L \<le> s / of_int k" using s(2) kpos by (simp add: field_simps)
  have hi: "s / of_int k \<le> of_int H" using s(3) kpos by (simp add: field_simps)
  have "B \<le> k * B" using k1 assms(4) by (simp add: mult_le_cancel_right1)
  then have "B \<le> 2 ^ 53" using assms(5) by (simp add: k_def)
  then have "\<bar>L\<bar> \<le> 2 ^ 53" "\<bar>H\<bar> \<le> 2 ^ 53"
    using assms(2,3) by linarith+
  from round64_between [OF lo hi this]
  show ?thesis using kpos by (simp add: avg_of_def fk [unfolded k_def] s(1) k_def)
qed

lemma valid_scores_of_in_range:
  assumes "\<forall>s \<in> set xs. keeps s \<longrightarrow> (\<exists>v. py_float s = Inr v \<and> in_range L H v)"
  shows "\<exists>vs. valid_scores_of xs = Inr vs \<and> (\<forall>v \<in> set vs. in_range L H v) \<and> length vs \<le> length xs"
  using assms by (induction xs) auto

lemma top_scores_of_subset:
  assumes "1 \<le> top_n" "vs \<noteq> []"
  shows "set (top_scores_of vs top_n) \<subseteq> set vs \<and> top_scores_of vs top_n \<noteq> [] \<and>
    length (top_scores_of vs top_n) \<le> length vs"
proof -
  have t: "top_scores_of vs top_n = take (nat top_n) (sort_reverse vs)"
    using assms(1) by (simp add: top_scores_of_def slice_to_pos)
  have "set (take (nat top_n) (sort_reverse vs)) \<subseteq> set (sort_reverse vs)" by (rule set_take_subset)
  moreover have "sort_reverse vs \<noteq> []" using assms(2) sort_reverse_length [of vs] by auto
  moreover have "0 < nat top_n" using assms(1) by simp
  ultimately show ?thesis by (simp add: t sort_reverse_set sort_reverse_length)
qed

lemma bounded_score:
  assumes "1 \<le> top_n" "\<bar>L\<bar> \<le> B" "\<bar>H\<bar> \<le> B" "1 \<le> B" "int (length xs) * B \<le> 2 ^ 53"
    and "valid_scores_of xs = Inr vs" "vs \<noteq> []" "\<forall>v \<in> set vs. in_range L H v" "length vs \<le> length xs"
  shows "\<exists>r. calculate_final_score (PList xs) top_n = Inr r \<and> L \<le> r \<and> r \<le> H"
proof -
  define ts where "ts = top_scores_of vs top_n"
  from top_scores_of_subset [OF assms(1,7)]
  have ts: "set ts \<subseteq> set vs" "ts \<noteq> []" "length ts \<le> length vs" by (simp_all add: ts_def)
  have "int (length ts) * B \<le> int (length xs) * B"
    using ts(3) assms(9,4) by (intro mult_right_mono) simp_all
  then have lb: "int (length ts) * B \<le> 2 ^ 53" using assms(5) by linarith
  have "\<forall>v \<in> set ts. in_range L H v" using ts(1) assms(8) by blast
  from avg_of_between [OF this assms(2,3,4) lb ts(2)]
  obtain a where a: "avg_of ts = Inr (Fin a)" "of_int L \<le> a" "a \<le> of_int H" by blast
  from round_half_up_between [OF a(2,3)]
  have r: "L \<le> round_half_up a" "round_half_up a \<le> H" by simp_all
  have "B \<le> int (length xs) * B"
    using assms(4,7,9) by (cases xs) (simp_all add: mult_le_cancel_right1)
  then have "B \<le> 2 ^ 53" using assms(5) by linarith
  then have "\<bar>round_half_up a\<bar> < 10 ^ 28" using r assms(2,3) by simp
  then have "final_avg_of (Fin a) = Inr (round_half_up a)" by (simp add: final_avg_of_def)
  then have "calculate_final_score (PList xs) top_n = Inr (round_half_up a)"
    using assms(6,7) a(1) by (simp add: calculate_final_score_unfold ts_def)
  then show ?thesis using r by blast
qed

text \<open>
  Claim C10. If every element that passes the filter converts to a value between 0 and
  100, and \<open>top_n \<ge> 1\<close>, the function returns an integer between 0 and 100, for
  every list of fewer than \<open>2^46\<close> elements (a CPython list takes eight bytes for each
  element, so that no list of that length fits the address space of a 64-bit machine;
  below that length every partial sum is bounded by a multiple of 100 that is a double).
\<close>

theorem range_preserved:
  assumes "1 \<le> top_n" "length xs < 2 ^ 46"
    and "\<forall>s \<in> set xs. keeps s \<longrightarrow> (\<exists>x. py_float s = Inr (Fin x) \<and> 0 \<le> x \<and> x \<le> 100)"
  shows "\<exists>r. calculate_final_score (PList xs) top_n = Inr r \<and> 0 \<le> r \<and> r \<le> 100"
proof -
  have "\<forall>s \<in> set xs. keeps s \<longrightarrow> (\<exists>v. py_float s = Inr v \<and> in_range 0 100 v)"
    using assms(3) by (auto simp: in_range_iff)
  from valid_scores_of_in_range [OF this]
  obtain vs where vs: "valid_scores_of xs = Inr vs" "\<forall>v \<in> set vs. in_range 0 100 v"
    "length vs \<le> length xs" by blast
  show ?thesis
  proof (cases "vs = []")
    case True
    then show ?thesis using vs(1) by (simp add: calculate_final_score_def)
  next
    case False
    have "int (length xs) < 2 ^ 46" using assms(2) by (simp flip: of_nat_less_iff)
    then have "int (length xs) * 100 \<le> 2 ^ 53" by simp
    from bounded_score [OF assms(1) _ _ _ this vs(1) False vs(2,3)]
    show ?thesis by simp
  qed
qed

theorem range_preserved_witness:
  "\<exists>r. calculate_final_score (PList [PInt 88, PInt 89]) 12 = Inr r \<and> 0 \<le> r \<and> r \<le> 100"
proof -
  have "\<forall>s \<in> set [PInt 88, PInt 89]. keeps s \<longrightarrow>
      (\<exists>x. py_float s = Inr (Fin x) \<and> 0 \<le> x \<and> x \<le> 100)"
    by (simp add: float_of_int_numeral)
  from range_preserved [OF _ _ this, of 12] show ?thesis by simp
qed

text \<open>
  Claim C5, as amended. The function can raise (see the counterexample below). It returns
  an integer, and raises nothing, for every \<open>top_n \<ge> 1\<close> and every list whose kept
  elements all convert to finite values of magnitude at most \<open>B\<close>, where \<open>B \<ge> 1\<close> is an
  integer and the length of the list times \<open>B\<close> is at most \<open>2^53\<close>; the integer returned
  is of magnitude at most \<open>B\<close> as well.
\<close>

theorem no_error_on_bounded_input:
  assumes "1 \<le> top_n" "1 \<le> B" "int (length xs) * B \<le> 2 ^ 53"
    and "\<forall>s \<in> set xs. keeps s \<longrightarrow> (\<exists>x. py_float s = Inr (Fin x) \<and> \<bar>x\<bar> \<le> of_int B)"
  shows "\<exists>r. calculate_final_score (PList xs) top_n = Inr r \<and> \<bar>r\<bar> \<le> B"
proof -
  have "\<forall>s \<in> set xs. keeps s \<longrightarrow> (\<exists>v. py_float s = Inr v \<and> in_range (- B) B v)"
    using assms(4) by (auto simp: in_range_iff abs_le_iff)
  from valid_scores_of_in_range [OF this]
  obtain vs where vs: "valid_scores_of xs = Inr vs" "\<forall>v \<in> set vs. in_range (- B) B v"
    "length vs \<le> length xs" by blast
  show ?thesis
  proof (cases "vs = []")
    case True
    then show ?thesis using vs(1) assms(2) by (simp add: calculate_final_score_def)
  next
    case False
    from bounded_score [OF assms(1) _ _ assms(2,3) vs(1) False vs(2,3)] assms(2)
    show ?thesis by (simp add: abs_le_iff) (metis minus_le_iff)
  qed
qed

theorem no_error_on_bounded_input_witness:
  "\<exists>r. calculate_final_score (PList [PInt 90, PInt (- 85), PNone]) 2 = Inr r \<and> \<bar>r\<bar> \<le> 100"
proof -
  have "float_of_int (- 85) = Inr (Fin (- 85))" using float_of_int_small [of "- 85"] by simp
  then have "\<forall>s \<in> set [PInt 90, PInt (- 85), PNone]. keeps s \<longrightarrow>
      (\<exists>x. py_float s = Inr (Fin x) \<and> \<bar>x\<bar> \<le> of_int 100)"
    by (simp add: float_of_int_numeral keeps_spec_retained)
  from no_error_on_bounded_input [OF _ _ _ this, of 2] show ?thesis by simp
qed

lemma is_digit_char_178: "is_digit_char 178" "decimal_digit 178 = None"
  by (simp_all add: is_digit_char_def decimal_digit_def decimal_zeros_def other_digit_ranges_def)

lemma float_value_inf: "float_value 0x7FF0000000000000 = PInf"
  by (simp add: float_value_def)

text \<open>
  Counterexample to claim C5 as stated. The string of the one character SUPERSCRIPT TWO
  (code point 178) passes \<^verbatim>\<open>isdigit\<close>, and \<^verbatim>\<open>float\<close> rejects it with
  ValueError; the float infinity (what \<^verbatim>\<open>json.loads\<close> makes of \<^verbatim>\<open>Infinity\<close> or
  \<^verbatim>\<open>1e999\<close>) passes the filter, and rounding it raises InvalidOperation.
\<close>

theorem raises_counterexample:
  "calculate_final_score (PList [PStr [178]]) 1 = Inl ValueError \<and>
   calculate_final_score (PList [PFloat 0x7FF0000000000000]) 1 = Inl InvalidOperation"
proof -
  have "calculate_final_score (PList [PStr [178]]) 1 = Inl ValueError"
    by (simp add: calculate_final_score_def keeps_spec_retained is_digit_char_178
        float_of_digits_def)
  moreover have "float_of_int 1 = Inr (Fin 1)" using float_of_int_small [of 1] by simp
  then have "calculate_final_score (PList [PFloat 0x7FF0000000000000]) 1 = Inl InvalidOperation"
    by (simp add: calculate_final_score_def keeps_spec_retained float_value_inf
        top_scores_of_def sort_reverse_def slice_to_def avg_of_def py_sum_def final_avg_of_def)
  ultimately show ?thesis by simp
qed

section \<open>Permutations of the input\<close>

lemma valid_scores_of_isl:
  "isl (valid_scores_of xs) \<longleftrightarrow> (\<exists>s \<in> set xs. keeps s \<and> isl (py_float s))"
  by (induction xs) (auto split: sum.splits)

lemma valid_scores_of_mset:
  "valid_scores_of xs = Inr vs \<Longrightarrow>
     mset vs = image_mset (\<lambda>s. projr (py_float s)) (filter_mset keeps (mset xs))"
  by (induction xs arbitrary: vs) (auto split: if_splits sum.splits)

lemma valid_scores_of_member:
  assumes "valid_scores_of xs = Inr vs" "v \<in> set vs"
  shows "\<exists>s \<in> set xs. keeps s \<and> py_float s = Inr v"
proof -
  have "Inr v \<in> set (map Inr vs)" using assms(2) by simp
  then have "Inr v \<in> set (map py_float (filter keeps xs))"
    using valid_scores_of_map [OF assms(1)] by simp
  then show ?thesis by auto
qed

lemma sort_mset_cong: "mset xs = mset ys \<Longrightarrow> sort xs = sort ys"
  by (metis mset_sort properties_for_sort sorted_sort)

lemma calculate_final_score_list:
  "calculate_final_score (PList xs) top_n =
     (case valid_scores_of xs of
        Inl e \<Rightarrow> Inl e
      | Inr vs \<Rightarrow>
          if vs = [] then Inr 0
          else case avg_of (top_scores_of vs top_n) of
                 Inl e \<Rightarrow> Inl e
               | Inr avg \<Rightarrow> final_avg_of avg)"
  by (cases xs) (simp_all add: calculate_final_score_def)

text \<open>
  Claim C6, as amended. Take two lists that are permutations of each other, none of whose
  kept elements converts to NaN. Then the two calls return the same integer, or both
  raise (which element raises first, and so which exception it is, may differ). The
  result depends on the multiset of the converted values only, since the function sorts
  them before it adds them.
\<close>

theorem permutation_invariant:
  assumes "mset xs = mset ys"
    and "\<forall>s \<in> set xs. keeps s \<longrightarrow> py_float s \<noteq> Inr NaN"
  shows "calculate_final_score (PList xs) top_n = calculate_final_score (PList ys) top_n \<or>
    (isl (calculate_final_score (PList xs) top_n) \<and> isl (calculate_final_score (PList ys) top_n))"
proof -
  have sets: "set xs = set ys" using assms(1) by (rule mset_eq_setD)
  show ?thesis
  proof (cases "valid_scores_of xs")
    case (Inl e)
    then have "isl (valid_scores_of xs)" by simp
    then have "isl (valid_scores_of ys)" by (simp add: valid_scores_of_isl sets)
    then obtain e' where "valid_scores_of ys = Inl e'" by (cases "valid_scores_of ys") simp_all
    then show ?thesis using Inl by (simp add: calculate_final_score_list)
  next
    case (Inr vs)
    then have "\<not> isl (valid_scores_of xs)" by simp
    then have "\<not> isl (valid_scores_of ys)" by (simp add: valid_scores_of_isl sets)
    then obtain ws where ws: "valid_scores_of ys = Inr ws" by (cases "valid_scores_of ys") simp_all
    have m: "mset vs = mset ws"
      by (simp only: valid_scores_of_mset [OF Inr] valid_scores_of_mset [OF ws] assms(1))
    have n: "NaN \<notin> set vs"
    proof
      assume "NaN \<in> set vs"
      from valid_scores_of_member [OF Inr this] assms(2) show False by blast
    qed
    have "set vs = set ws" using m by (rule mset_eq_setD)
    then have "NaN \<notin> set ws" using n by simp
    then have "sort_reverse ws = rev (sort ws)" by (rule sort_reverse_eq)
    also have "\<dots> = rev (sort vs)" using sort_mset_cong [OF m] by simp
    also have "\<dots> = sort_reverse vs" using n by (simp add: sort_reverse_eq)
    finally have t: "top_scores_of ws top_n = top_scores_of vs top_n"
      by (simp add: top_scores_of_def)
    have "length vs = length ws" using m by (rule mset_eq_length)
    then have "vs = [] \<longleftrightarrow> ws = []" by auto
    then show ?thesis using Inr ws t by (simp add: calculate_final_score_list)
  qed
qed

lemma floor_numeral_div:
  "\<lfloor>numeral a / numeral b :: rat\<rfloor> = numeral a div numeral b"
  using floor_divide_of_int_eq [of "numeral a" "numeral b", where ?'a = rat] by simp

lemma float_of_int_1: "float_of_int 1 = Inr (Fin 1)"
  using float_of_int_small [of 1] by simp

theorem permutation_invariant_witness:
  "mset [PInt 88, PInt 89] = mset [PInt 89, PInt 88] \<and>
   calculate_final_score (PList [PInt 88, PInt 89]) 1 = Inr 89 \<and>
   calculate_final_score (PList [PInt 89, PInt 88]) 1 = Inr 89"
proof -
  have a: "mset [PInt 88, PInt 89] = mset [PInt 89, PInt 88]" by simp
  have b: "\<forall>s \<in> set [PInt 88, PInt 89]. keeps s \<longrightarrow> py_float s \<noteq> Inr NaN"
    by (simp add: float_of_int_numeral)
  have c: "calculate_final_score (PList [PInt 88, PInt 89]) 1 = Inr 89"
    by (simp add: calculate_final_score_list keeps_spec_retained float_of_int_numeral
        top_scores_of_def sort_reverse_def slice_to_def avg_of_def py_sum_def
        round64_numeral float_of_int_1 final_avg_of_def round_half_up_def floor_numeral_div)
  have "\<not> isl (calculate_final_score (PList [PInt 88, PInt 89]) 1)" using c by simp
  with permutation_invariant [OF a b, of 1] a c show ?thesis by simp
qed

lemma float_value_nan: "float_value 0x7FF8000000000000 = NaN"
  by (simp add: float_value_def)

text \<open>
  Counterexample to claim C6 as stated. A float NaN passes the filter, and every
  comparison with it is false, so the sort leaves the two elements of either list as they
  are: with \<open>top_n = 1\<close> the list NaN, 2 selects NaN and the call raises ValueError, the
  list 2, NaN selects 2 and the call returns 2.
\<close>

theorem order_matters_counterexample:
  "mset [PFloat 0x7FF8000000000000, PInt 2] = mset [PInt 2, PFloat 0x7FF8000000000000] \<and>
   calculate_final_score (PList [PFloat 0x7FF8000000000000, PInt 2]) 1 = Inl ValueError \<and>
   calculate_final_score (PList [PInt 2, PFloat 0x7FF8000000000000]) 1 = Inr 2"
  by (simp add: calculate_final_score_list keeps_spec_retained float_of_int_numeral
        float_value_nan top_scores_of_def sort_reverse_def slice_to_def avg_of_def py_sum_def
        round64_numeral float_of_int_1 final_avg_of_def round_half_up_def floor_numeral_div)

section \<open>The order of the result set\<close>









section \<open>A failed extraction\<close>

lemma main_loop_append:
  "main_loop loads n st (pre @ rest) =
     (case main_loop loads n st pre of Inl e \<Rightarrow> Inl e | Inr st' \<Rightarrow> main_loop loads n st' rest)"
  by (induction pre arbitrary: st) (simp_all split: sum.splits)

lemma failed_extraction_dict:
  "extraction_failure loads r = Some msg \<Longrightarrow>
     process_image_with_gemini loads r = PDict [(ustr ''error'', PStr msg)]"
  by (auto simp: extraction_failure_def process_image_with_gemini_def
      split: reply.splits sum.splits)

lemma process_upload_failed:
  assumes "image_opens u" "extraction_failure loads (reply u) = Some msg"
  shows "process_upload loads n st u =
     Inr (st\<lparr>shown_errors := shown_errors st @ [(name u, PStr msg)]\<rparr>)"
  using assms(1) by (simp add: process_upload_def failed_extraction_dict [OF assms(2)])

text \<open>
  Claim C9. Take a file whose image opens and whose extraction fails: the call to the
  service raises, or \<^verbatim>\<open>json.loads\<close> raises on the reply with its code fences
  removed. Then its turn of the loop shows one error with the name of the file and the
  message, adds no row, and does not raise; the loop goes on with the files after it, in
  the state it had plus that one error, wherever in the batch the file stands.
\<close>

theorem extraction_failure_is_skipped:
  assumes "image_opens u" "extraction_failure loads (reply u) = Some msg"
  shows "process_upload loads n st u =
      Inr (st\<lparr>shown_errors := shown_errors st @ [(name u, PStr msg)]\<rparr>) \<and>
    results (st\<lparr>shown_errors := shown_errors st @ [(name u, PStr msg)]\<rparr>) = results st \<and>
    main_loop loads n st (u # rest) =
      main_loop loads n (st\<lparr>shown_errors := shown_errors st @ [(name u, PStr msg)]\<rparr>) rest \<and>
    main_loop loads n st (pre @ u # rest) =
      (case main_loop loads n st pre of
         Inl e \<Rightarrow> Inl e
       | Inr st' \<Rightarrow>
           main_loop loads n (st'\<lparr>shown_errors := shown_errors st' @ [(name u, PStr msg)]\<rparr>) rest)"
  by (simp add: process_upload_failed [OF assms] main_loop_append split: sum.splits)


lemma json_str_of_examples:
  "json_str_of (ustr ''oops'') = ustr ''oops''"
  "json_str_of (ustr ''```json{}```'') = ustr ''{}''"
  by (simp_all add: json_str_of_def py_strip_def is_space_char_def space_ranges_def ustr_simps)

theorem extraction_failure_is_skipped_witness:
  "extraction_failure (\<lambda>t. if t = ustr ''{}'' then Inr (PDict []) else Inl (ustr ''bad''))
     (ReplyText (ustr ''oops'')) = Some (ustr ''bad'') \<and>
   main_loop (\<lambda>t. if t = ustr ''{}'' then Inr (PDict []) else Inl (ustr ''bad'')) 12
     \<lparr>results = [], shown_errors = []\<rparr>
     [\<lparr>name = ustr ''a.png'', image_opens = True, reply = ReplyText (ustr ''oops'')\<rparr>,
      \<lparr>name = ustr ''b.png'', image_opens = True, reply = ReplyText (ustr ''```json{}```'')\<rparr>] =
   Inr \<lparr>results =
          [\<lparr>filename = ustr ''b.png'', seat_number = PStr [26410, 30693], final_score = 0,
            raw_scores = PList []\<rparr>],
        shown_errors = [(ustr ''a.png'', PStr (ustr ''bad''))]\<rparr>"
proof -
  let ?loads = "\<lambda>t. if t = ustr ''{}'' then Inr (PDict []) else Inl (ustr ''bad'')"
  let ?a = "\<lparr>name = ustr ''a.png'', image_opens = True, reply = ReplyText (ustr ''oops'')\<rparr>"
  let ?b = "\<lparr>name = ustr ''b.png'', image_opens = True,
      reply = ReplyText (ustr ''```json{}```'')\<rparr>"
  have ne: "json_str_of (ustr ''oops'') \<noteq> ustr ''{}''"
    unfolding json_str_of_examples by (simp add: ustr_simps)
  have f: "extraction_failure ?loads (reply ?a) = Some (ustr ''bad'')"
    by (simp add: extraction_failure_def ne)
  have o: "image_opens ?a" by simp
  have b: "process_upload ?loads 12
      \<lparr>results = [], shown_errors = [(ustr ''a.png'', PStr (ustr ''bad''))]\<rparr> ?b =
    Inr \<lparr>results =
          [\<lparr>filename = ustr ''b.png'', seat_number = PStr [26410, 30693], final_score = 0,
            raw_scores = PList []\<rparr>],
        shown_errors = [(ustr ''a.png'', PStr (ustr ''bad''))]\<rparr>"
    by (simp add: process_upload_def process_image_with_gemini_def json_str_of_examples
        dict_get_def calculate_final_score_def)
  from extraction_failure_is_skipped [OF o f, of 12 "\<lparr>results = [], shown_errors = []\<rparr>" "[?b]" "[]"]
  have "main_loop ?loads 12 \<lparr>results = [], shown_errors = []\<rparr> [?a, ?b] =
      main_loop ?loads 12 \<lparr>results = [], shown_errors = [(ustr ''a.png'', PStr (ustr ''bad''))]\<rparr> [?b]"
    by simp
  then show ?thesis using f b by simp
qed

end
